theory Spec2Isabelle
  imports Main
begin

section \<open>Grid traversal: the data model of \<^verbatim>\<open>grid_traversal.c\<close>\<close>

text \<open>
  The C program keeps a grid as a struct with two \<^verbatim>\<open>int\<close> dimensions and a
  two-dimensional array of flags (\<^verbatim>\<open>bool **blocked\<close>, true = blocked). The array is
  a list of rows here, each row a list of flags; a cell is read with
  \<open>blocked g ! nat r ! nat c\<close> and written with a nested list update.

  C's \<^verbatim>\<open>int\<close> is modelled by HOL's \<open>int\<close>, with the one addition that can
  leave the range of a 32-bit \<^verbatim>\<open>int\<close> checked where it stands:
  \<^verbatim>\<open>movement_points + 1\<close> in line 104 of \<^verbatim>\<open>solve_path\<close>. Every index the program
  computes lies between \<open>-1\<close> and \<open>rows\<close> (or \<open>cols\<close>), and the counters
  \<^verbatim>\<open>step\<close>, \<^verbatim>\<open>pathLen\<close> and \<^verbatim>\<open>unique_count\<close> never exceed
  \<^verbatim>\<open>movement_points + 1\<close>, so no other arithmetic of the planner can overflow.
\<close>

text \<open>The largest value of a C \<^verbatim>\<open>int\<close> of 32 bits.\<close>

definition INT_MAX :: int where
  "INT_MAX = 2147483647"

record Grid =
  rows :: int
  cols :: int
  blocked :: "bool list list"

text \<open>
  The shape \<^verbatim>\<open>create_grid\<close> establishes: positive dimensions, \<open>rows\<close> rows of
  \<open>cols\<close> flags each.
\<close>

definition grid_ok :: "Grid \<Rightarrow> bool" where
  "grid_ok g =
     (0 < rows g \<and> 0 < cols g \<and> length (blocked g) = nat (rows g) \<and>
      list_all (\<lambda>row. length row = nat (cols g)) (blocked g))"

text \<open>Writing \<^verbatim>\<open>a[r][c] = true\<close> into a two-dimensional array of flags.\<close>

definition set_cell :: "bool list list \<Rightarrow> int \<Rightarrow> int \<Rightarrow> bool list list" where
  "set_cell a r c = a[nat r := (a ! nat r)[nat c := True]]"

text \<open>
  \<^verbatim>\<open>create_grid\<close>, lines 13 to 52, for the case that every allocation succeeds (on a
  failed \<^verbatim>\<open>malloc\<close> the program prints a message and exits). All cells start free;
  the first \<^verbatim>\<open>blocked_count\<close> entries of the list, which holds at least as many,
  are marked when they are in bounds and skipped otherwise.
\<close>

fun mark_blocked :: "int \<Rightarrow> int \<Rightarrow> bool list list \<Rightarrow> (int \<times> int) list \<Rightarrow> bool list list" where
  "mark_blocked rs cs a [] = a"
| "mark_blocked rs cs a ((r, c) # rest) =
     (if r \<ge> 0 \<and> r < rs \<and> c \<ge> 0 \<and> c < cs
      then mark_blocked rs cs (set_cell a r c) rest
      else mark_blocked rs cs a rest)"

definition create_grid :: "int \<Rightarrow> int \<Rightarrow> int \<Rightarrow> (int \<times> int) list \<Rightarrow> Grid" where
  "create_grid rs cs blocked_count blocked_list =
     \<lparr>rows = rs, cols = cs,
      blocked = mark_blocked rs cs (replicate (nat rs) (replicate (nat cs) False))
                  (take (nat blocked_count) blocked_list)\<rparr>"

section \<open>The planner: \<^verbatim>\<open>solve_path\<close>\<close>

subsection \<open>Start cell, lines 80 to 89\<close>

text \<open>
  The inner loop over the columns of row \<open>i\<close>, entered at column \<open>j\<close> with the
  current value \<open>st\<close> of \<^verbatim>\<open>(start_r, start_c)\<close>: it stops at the first free cell.
\<close>

function scan_row :: "Grid \<Rightarrow> int \<Rightarrow> int \<Rightarrow> int \<times> int \<Rightarrow> int \<times> int" where
  "scan_row g i j st =
     (if j < cols g
      then (if \<not> blocked g ! nat i ! nat j then (i, j) else scan_row g i (j + 1) st)
      else st)"
  by pat_completeness auto
termination
  by (relation "measure (\<lambda>(g, i, j, st). nat (cols g - j))") auto

text \<open>The outer loop, which runs while \<^verbatim>\<open>i < rows && start_r < 0\<close>.\<close>

function scan_rows :: "Grid \<Rightarrow> int \<Rightarrow> int \<times> int \<Rightarrow> int \<times> int" where
  "scan_rows g i st =
     (if i < rows g \<and> fst st < 0
      then scan_rows g (i + 1) (scan_row g i 0 st)
      else st)"
  by pat_completeness auto
termination
  by (relation "measure (\<lambda>(g, i, st). nat (rows g - i))") auto

definition find_start :: "Grid \<Rightarrow> int \<times> int" where
  "find_start g = scan_rows g 0 (-1, -1)"

subsection \<open>The state of one run, lines 95 to 118\<close>

text \<open>
  \<open>cr\<close>, \<open>cc\<close>: the current cell; \<open>visited\<close>: the flags of the cells entered so
  far; \<open>path\<close>: the entries \<^verbatim>\<open>0 .. pathLen - 1\<close> of \<^verbatim>\<open>path_r\<close> and \<^verbatim>\<open>path_c\<close>,
  paired, so that \<^verbatim>\<open>pathLen\<close> is the length of the list and a write at index
  \<^verbatim>\<open>pathLen\<close> followed by \<^verbatim>\<open>pathLen++\<close> appends; \<open>unique_count\<close> as in the source.
\<close>

record trav =
  cr :: int
  cc :: int
  visited :: "bool list list"
  path :: "(int \<times> int) list"
  unique_count :: int

definition dr :: "int list" where
  "dr = [-1, 0, 1, 0]"

definition dc :: "int list" where
  "dc = [0, 1, 0, -1]"

subsection \<open>One step of the loop, lines 122 to 172\<close>

text \<open>
  The first scan, entered at direction index \<open>i\<close>: the first neighbour that is in
  bounds, free and not visited is entered. \<open>None\<close> stands for \<^verbatim>\<open>moved == false\<close>
  at the end of the scan.
\<close>

function explore :: "Grid \<Rightarrow> trav \<Rightarrow> nat \<Rightarrow> trav option" where
  "explore g s i =
     (if i < 4 then
        (let nr = cr s + dr ! i; nc = cc s + dc ! i in
         if nr \<ge> 0 \<and> nr < rows g \<and> nc \<ge> 0 \<and> nc < cols g then
           (if \<not> blocked g ! nat nr ! nat nc \<and> \<not> visited s ! nat nr ! nat nc
            then Some (s\<lparr>cr := nr, cc := nc,
                         visited := set_cell (visited s) nr nc,
                         path := path s @ [(nr, nc)],
                         unique_count := unique_count s + 1\<rparr>)
            else explore g s (i + 1))
         else explore g s (i + 1))
      else None)"
  by pat_completeness auto
termination
  by (relation "measure (\<lambda>(g, s, i). 4 - i)") auto

text \<open>
  The innermost scan of the second tier, entered at index \<open>j\<close>: does the cell
  \<open>(nr, nc)\<close> have a neighbour that is in bounds, free and not visited?
\<close>

function has_unvisited :: "Grid \<Rightarrow> bool list list \<Rightarrow> int \<Rightarrow> int \<Rightarrow> nat \<Rightarrow> bool" where
  "has_unvisited g v nr nc j =
     (if j < 4 then
        (let r2 = nr + dr ! j; c2 = nc + dc ! j in
         if r2 \<ge> 0 \<and> r2 < rows g \<and> c2 \<ge> 0 \<and> c2 < cols g then
           (if \<not> blocked g ! nat r2 ! nat c2 \<and> \<not> v ! nat r2 ! nat c2
            then True
            else has_unvisited g v nr nc (j + 1))
         else has_unvisited g v nr nc (j + 1))
      else False)"
  by pat_completeness auto
termination
  by (relation "measure (\<lambda>(g, v, nr, nc, j). 4 - j)") auto

text \<open>
  The second scan, entered at index \<open>i\<close> with \<^verbatim>\<open>moved == false\<close>: the first
  neighbour that is in bounds, free and visited and that has an unvisited free
  neighbour of its own is entered; only the position and the path change.
\<close>

function reposition :: "Grid \<Rightarrow> trav \<Rightarrow> nat \<Rightarrow> trav option" where
  "reposition g s i =
     (if i < 4 then
        (let nr = cr s + dr ! i; nc = cc s + dc ! i in
         if nr \<ge> 0 \<and> nr < rows g \<and> nc \<ge> 0 \<and> nc < cols g then
           (if \<not> blocked g ! nat nr ! nat nc \<and> visited s ! nat nr ! nat nc then
              (if has_unvisited g (visited s) nr nc 0
               then Some (s\<lparr>cr := nr, cc := nc, path := path s @ [(nr, nc)]\<rparr>)
               else reposition g s (i + 1))
            else reposition g s (i + 1))
         else reposition g s (i + 1))
      else None)"
  by pat_completeness auto
termination
  by (relation "measure (\<lambda>(g, s, i). 4 - i)") auto

text \<open>The body of the step loop: \<open>None\<close> is the \<^verbatim>\<open>break\<close> of line 171.\<close>

definition try_move :: "Grid \<Rightarrow> trav \<Rightarrow> trav option" where
  "try_move g s =
     (case explore g s 0 of
        Some s' \<Rightarrow> Some s'
      | None \<Rightarrow> reposition g s 0)"

text \<open>The step loop of line 121, entered with the counter at \<open>step\<close>.\<close>

function step_loop :: "Grid \<Rightarrow> int \<Rightarrow> int \<Rightarrow> trav \<Rightarrow> trav" where
  "step_loop g movement_points step s =
     (if step < movement_points then
        (case try_move g s of
           Some s' \<Rightarrow> step_loop g movement_points (step + 1) s'
         | None \<Rightarrow> s)
      else s)"
  by pat_completeness auto
termination
  by (relation "measure (\<lambda>(g, movement_points, step, s). nat (movement_points - step))") auto

text \<open>
  \<^verbatim>\<open>solve_path\<close> prints its result; the model returns what is printed, the path
  and the count. Without a free cell only the count 0 is printed (line 92): the
  path is empty, and the function returns in line 93.

  Otherwise the path is kept in two buffers of
  \<^verbatim>\<open>max_path_len = movement_points + 1\<close> entries (lines 104 to 106), whose
  allocation is not tested. The result \<open>None\<close> stands for a run that prints no
  result because its behaviour is undefined:
  \<^item> with \<^verbatim>\<open>movement_points = INT_MAX\<close> the addition of line 104 overflows (and
    the store of line 111 goes through the null pointer that \<^verbatim>\<open>malloc\<close> returns
    for the wrapped size);
  \<^item> with a negative \<^verbatim>\<open>movement_points\<close> the buffers have no entry 0 for the
    start cell, which lines 111 and 112 write.
  The writes of the loop are at index \<^verbatim>\<open>pathLen\<close>, which is at most
  \<^verbatim>\<open>step + 1 \<le> movement_points\<close> there (lemma \<open>length_step_loop\<close> below), so
  that the lists of the model never outgrow the buffers.
\<close>

definition solve_path :: "Grid \<Rightarrow> int \<Rightarrow> ((int \<times> int) list \<times> int) option" where
  "solve_path g movement_points =
     (let (start_r, start_c) = find_start g in
      if start_r < 0 then Some ([], 0)
      else if movement_points + 1 > INT_MAX then None
      else
        (let max_path_len = movement_points + 1 in
         if max_path_len < 1 then None
         else
           (let s = step_loop g movement_points 0
                      \<lparr>cr = start_r, cc = start_c,
                       visited = set_cell (replicate (nat (rows g)) (replicate (nat (cols g)) False))
                                   start_r start_c,
                       path = [(start_r, start_c)],
                       unique_count = 1\<rparr>
            in Some (path s, unique_count s))))"

section \<open>Random obstacles: \<^verbatim>\<open>generate_blocked\<close>\<close>

subsection \<open>Counting the blocked cells, lines 197 to 202\<close>

text \<open>
  The inner loop over row \<open>r\<close>, entered at column \<open>c\<close> with \<^verbatim>\<open>already_blocked\<close>
  equal to \<open>n\<close>, and the outer loop over the rows.
\<close>

function count_row :: "Grid \<Rightarrow> int \<Rightarrow> int \<Rightarrow> int \<Rightarrow> int" where
  "count_row g r c n =
     (if c < cols g
      then count_row g r (c + 1) (if blocked g ! nat r ! nat c then n + 1 else n)
      else n)"
  by pat_completeness auto
termination
  by (relation "measure (\<lambda>(g, r, c, n). nat (cols g - c))") auto

function count_rows :: "Grid \<Rightarrow> int \<Rightarrow> int \<Rightarrow> int" where
  "count_rows g r n =
     (if r < rows g then count_rows g (r + 1) (count_row g r 0 n) else n)"
  by pat_completeness auto
termination
  by (relation "measure (\<lambda>(g, r, n). nat (rows g - r))") auto

subsection \<open>The sampling loop, lines 210 to 218\<close>

text \<open>
  The random source is the list of the values \<^verbatim>\<open>rand()\<close> returns, in order; they
  are never negative, hence \<open>nat\<close>, and for a non-negative value and a positive
  divisor C's \<^verbatim>\<open>%\<close> is \<open>mod\<close>. The loop draws two values per round. It has no
  bound of its own: a run is described by a finite prefix of the source, and when
  the prefix is used up while \<^verbatim>\<open>placed < num_blocked\<close> still holds, the model
  stops with \<open>returned = False\<close> and the grid reached so far, so that a statement
  about every prefix covers every moment of every run, also of one that never
  returns.

  \<open>marked\<close> lists the cells written by line 216, in order. The program keeps
  only the counter \<^verbatim>\<open>placed\<close>; the list is what a claim about the individual
  writes is stated on.
\<close>

record placement =
  grid_after :: Grid
  marked :: "(int \<times> int) list"
  returned :: bool

fun place_loop :: "Grid \<Rightarrow> int \<Rightarrow> int \<Rightarrow> (int \<times> int) list \<Rightarrow> nat list \<Rightarrow> placement" where
  "place_loop g num_blocked placed ms rs =
     (if placed < num_blocked then
        (case rs of
           x # y # rest \<Rightarrow>
             (let r = int x mod rows g; c = int y mod cols g in
              if blocked g ! nat r ! nat c
              then place_loop g num_blocked placed ms rest
              else place_loop (g\<lparr>blocked := set_cell (blocked g) r c\<rparr>) num_blocked
                     (placed + 1) (ms @ [(r, c)]) rest)
         | _ \<Rightarrow> \<lparr>grid_after = g, marked = ms, returned = False\<rparr>)
      else \<lparr>grid_after = g, marked = ms, returned = True\<rparr>)"

text \<open>
  \<^verbatim>\<open>generate_blocked\<close> for a grid pointer that is not null (for a null pointer
  the function returns at once, and there is no grid).
\<close>

definition generate_blocked :: "Grid \<Rightarrow> int \<Rightarrow> nat list \<Rightarrow> placement" where
  "generate_blocked g num_blocked rs =
     (if num_blocked \<le> 0 then \<lparr>grid_after = g, marked = [], returned = True\<rparr>
      else
        (let already_blocked = count_rows g 0 0;
             total_cells = rows g * cols g;
             available = total_cells - already_blocked
         in if available \<le> 0 then \<lparr>grid_after = g, marked = [], returned = True\<rparr>
            else place_loop g (if num_blocked > available then available else num_blocked)
                   0 [] rs))"

section \<open>The vocabulary of the specification\<close>

text \<open>A coordinate pair inside the grid; a cell that is inside and not blocked.\<close>

definition in_grid :: "Grid \<Rightarrow> int \<Rightarrow> int \<Rightarrow> bool" where
  "in_grid g r c = (0 \<le> r \<and> r < rows g \<and> 0 \<le> c \<and> c < cols g)"

definition is_free :: "Grid \<Rightarrow> int \<Rightarrow> int \<Rightarrow> bool" where
  "is_free g r c = (in_grid g r c \<and> \<not> blocked g ! nat r ! nat c)"

definition blocked_cells :: "Grid \<Rightarrow> (int \<times> int) set" where
  "blocked_cells g = {(r, c). in_grid g r c \<and> blocked g ! nat r ! nat c}"

text \<open>
  The four orthogonal neighbours of a cell in the priority order of the
  specification: up, right, down, left, that is the direction vectors
  \<open>(-1,0)\<close>, \<open>(0,1)\<close>, \<open>(1,0)\<close>, \<open>(0,-1)\<close>.
\<close>

definition neighbours :: "int \<Rightarrow> int \<Rightarrow> (int \<times> int) list" where
  "neighbours r c = [(r - 1, c), (r, c + 1), (r + 1, c), (r, c - 1)]"

text \<open>Two cells differ by exactly one in exactly one coordinate.\<close>

definition adjacent :: "int \<times> int \<Rightarrow> int \<times> int \<Rightarrow> bool" where
  "adjacent p q =
     ((\<bar>fst p - fst q\<bar> = 1 \<and> snd p = snd q) \<or> (fst p = fst q \<and> \<bar>snd p - snd q\<bar> = 1))"

text \<open>
  A target of the first tier: in bounds, free and not visited. A target of the
  second tier: in bounds, free, visited, with a neighbour that is a target of the
  first tier.
\<close>

definition unvisited_free :: "Grid \<Rightarrow> bool list list \<Rightarrow> int \<times> int \<Rightarrow> bool" where
  "unvisited_free g v p = (is_free g (fst p) (snd p) \<and> \<not> v ! nat (fst p) ! nat (snd p))"

definition can_reposition :: "Grid \<Rightarrow> bool list list \<Rightarrow> int \<times> int \<Rightarrow> bool" where
  "can_reposition g v p =
     (is_free g (fst p) (snd p) \<and> v ! nat (fst p) ! nat (snd p) \<and>
      list_ex (unvisited_free g v) (neighbours (fst p) (snd p)))"

section \<open>Auxiliary notions of the proofs\<close>

text \<open>A flag array of the grid's dimensions.\<close>

definition shape_ok :: "Grid \<Rightarrow> bool list list \<Rightarrow> bool" where
  "shape_ok g v = (length v = nat (rows g) \<and> list_all (\<lambda>row. length row = nat (cols g)) v)"

text \<open>The two state changes of a step and the state the loop starts from.\<close>

definition enter :: "trav \<Rightarrow> int \<times> int \<Rightarrow> trav" where
  "enter s p =
     s\<lparr>cr := fst p, cc := snd p, visited := set_cell (visited s) (fst p) (snd p),
       path := path s @ [p], unique_count := unique_count s + 1\<rparr>"

definition step_back :: "trav \<Rightarrow> int \<times> int \<Rightarrow> trav" where
  "step_back s p = s\<lparr>cr := fst p, cc := snd p, path := path s @ [p]\<rparr>"

definition start_state :: "Grid \<Rightarrow> int \<Rightarrow> int \<Rightarrow> trav" where
  "start_state g r c =
     \<lparr>cr = r, cc = c,
      visited = set_cell (replicate (nat (rows g)) (replicate (nat (cols g)) False)) r c,
      path = [(r, c)], unique_count = 1\<rparr>"

text \<open>
  The invariant of the step loop: the flag array has the grid's shape, the path
  ends at the current cell, holds free cells only and moves between adjacent
  cells, the visited cells are the cells of the path, and the counter is their
  number.
\<close>

definition trav_inv :: "Grid \<Rightarrow> trav \<Rightarrow> bool" where
  "trav_inv g s =
     (shape_ok g (visited s) \<and> path s \<noteq> [] \<and> last (path s) = (cr s, cc s) \<and>
      list_all (\<lambda>p. is_free g (fst p) (snd p)) (path s) \<and>
      (\<forall>r c. in_grid g r c \<longrightarrow> visited s ! nat r ! nat c = ((r, c) \<in> set (path s))) \<and>
      unique_count s = int (card (set (path s))) \<and>
      successively adjacent (path s))"

declare scan_row.simps [simp del] scan_rows.simps [simp del] explore.simps [simp del]
  has_unvisited.simps [simp del] reposition.simps [simp del] step_loop.simps [simp del]
  count_row.simps [simp del] count_rows.simps [simp del] place_loop.simps [simp del]

section \<open>Lemmas about the planner\<close>

lemma scan_row_none:
  "(\<And>k. j \<le> k \<Longrightarrow> k < cols g \<Longrightarrow> blocked g ! nat i ! nat k) \<Longrightarrow> scan_row g i j st = st"
proof (induction g i j st rule: scan_row.induct)
  case (1 g i j st)
  show ?case
  proof (cases "j < cols g")
    case True
    with "1.prems" have b: "blocked g ! nat i ! nat j" by simp
    have "scan_row g i (j + 1) st = st"
      using True b "1.prems" by (intro "1.IH") auto
    with True b show ?thesis by (subst scan_row.simps) simp
  next
    case False
    then show ?thesis by (subst scan_row.simps) simp
  qed
qed

lemma scan_row_found:
  "0 \<le> j \<Longrightarrow> j \<le> c \<Longrightarrow> c < cols g \<Longrightarrow> \<not> blocked g ! nat i ! nat c \<Longrightarrow>
   \<exists>c'. scan_row g i j st = (i, c') \<and> j \<le> c' \<and> c' \<le> c \<and> \<not> blocked g ! nat i ! nat c' \<and>
        (\<forall>k. j \<le> k \<and> k < c' \<longrightarrow> blocked g ! nat i ! nat k)"
proof (induction g i j st rule: scan_row.induct)
  case (1 g i j st)
  from "1.prems" have lt: "j < cols g" by simp
  show ?case
  proof (cases "blocked g ! nat i ! nat j")
    case False
    with lt have "scan_row g i j st = (i, j)" by (subst scan_row.simps) simp
    with False "1.prems" show ?thesis by auto
  next
    case True
    with "1.prems" have "j \<noteq> c" by auto
    with "1.prems" have jc: "j + 1 \<le> c" by simp
    from "1.IH" [OF lt _ _ jc "1.prems"(3,4)] True "1.prems"(1)
    obtain c' where c': "scan_row g i (j + 1) st = (i, c')" "j + 1 \<le> c'" "c' \<le> c"
      "\<not> blocked g ! nat i ! nat c'" "\<forall>k. j + 1 \<le> k \<and> k < c' \<longrightarrow> blocked g ! nat i ! nat k"
      by auto
    have "scan_row g i j st = (i, c')"
      using lt True c'(1) by (subst scan_row.simps) simp
    moreover have "\<forall>k. j \<le> k \<and> k < c' \<longrightarrow> blocked g ! nat i ! nat k"
    proof (intro allI impI)
      fix k assume "j \<le> k \<and> k < c'"
      then show "blocked g ! nat i ! nat k"
        using True c'(5) by (cases "k = j") auto
    qed
    ultimately show ?thesis using c'(2,3,4) by auto
  qed
qed

lemma scan_rows_stop: "0 \<le> fst st \<Longrightarrow> scan_rows g i st = st"
  by (subst scan_rows.simps) simp

lemma scan_rows_none:
  "fst st < 0 \<Longrightarrow> (\<And>a b. is_free g a b \<Longrightarrow> a < i) \<Longrightarrow> 0 \<le> i \<Longrightarrow> scan_rows g i st = st"
proof (induction g i st rule: scan_rows.induct)
  case (1 g i st)
  show ?case
  proof (cases "i < rows g")
    case False
    then show ?thesis by (subst scan_rows.simps) simp
  next
    case True
    have "scan_row g i 0 st = st"
    proof (rule scan_row_none)
      fix k :: int assume "0 \<le> k" "k < cols g"
      show "blocked g ! nat i ! nat k"
      proof (rule ccontr)
        assume "\<not> blocked g ! nat i ! nat k"
        with True \<open>0 \<le> k\<close> \<open>k < cols g\<close> "1.prems"(3) have "is_free g i k"
          by (simp add: is_free_def in_grid_def)
        from "1.prems"(2) [OF this] show False by simp
      qed
    qed
    moreover have "scan_rows g (i + 1) st = st"
    proof (rule "1.IH" [unfolded \<open>scan_row g i 0 st = st\<close>])
      show "i < rows g \<and> fst st < 0" using True "1.prems"(1) by simp
      show "fst st < 0" by fact
      show "\<And>a b. is_free g a b \<Longrightarrow> a < i + 1" using "1.prems"(2) by force
      show "0 \<le> i + 1" using "1.prems"(3) by simp
    qed
    ultimately show ?thesis using True "1.prems"(1) by (subst scan_rows.simps) simp
  qed
qed

lemma scan_rows_found:
  "fst st < 0 \<Longrightarrow> 0 \<le> i \<Longrightarrow> i \<le> r \<Longrightarrow> is_free g r c \<Longrightarrow>
   \<exists>r' c'. scan_rows g i st = (r', c') \<and> is_free g r' c' \<and> i \<le> r' \<and>
     (\<forall>a b. is_free g a b \<and> i \<le> a \<longrightarrow> r' < a \<or> (r' = a \<and> c' \<le> b))"
proof (induction g i st arbitrary: rule: scan_rows.induct)
  case (1 g i st)
  from "1.prems" have lt: "i < rows g" by (simp add: is_free_def in_grid_def)
  have unf: "scan_rows g i st = scan_rows g (i + 1) (scan_row g i 0 st)"
    using lt "1.prems"(1) by (subst scan_rows.simps) simp
  show ?case
  proof (cases "\<exists>k. is_free g i k")
    case True
    then obtain k where k: "0 \<le> k" "k < cols g" "\<not> blocked g ! nat i ! nat k"
      by (auto simp: is_free_def in_grid_def)
    have "\<exists>c'. scan_row g i 0 st = (i, c') \<and> 0 \<le> c' \<and> c' \<le> k \<and> \<not> blocked g ! nat i ! nat c' \<and>
        (\<forall>k. 0 \<le> k \<and> k < c' \<longrightarrow> blocked g ! nat i ! nat k)"
      using k by (intro scan_row_found) auto
    then obtain c' where c': "scan_row g i 0 st = (i, c')" "0 \<le> c'" "c' \<le> k"
      "\<not> blocked g ! nat i ! nat c'" "\<forall>k. 0 \<le> k \<and> k < c' \<longrightarrow> blocked g ! nat i ! nat k"
      by blast
    have res: "scan_rows g i st = (i, c')"
      using unf c'(1) "1.prems"(2) by (simp add: scan_rows_stop)
    have fr: "is_free g i c'"
      using c' k lt "1.prems"(2) by (simp add: is_free_def in_grid_def)
    have "\<forall>a b. is_free g a b \<and> i \<le> a \<longrightarrow> i < a \<or> (i = a \<and> c' \<le> b)"
    proof (intro allI impI)
      fix a b assume ab: "is_free g a b \<and> i \<le> a"
      show "i < a \<or> (i = a \<and> c' \<le> b)"
      proof (cases "i = a")
        case True
        with ab c'(5) have "\<not> b < c'" by (auto simp: is_free_def in_grid_def)
        with True show ?thesis by simp
      next
        case False
        with ab show ?thesis by simp
      qed
    qed
    with res fr show ?thesis by auto
  next
    case False
    have "scan_row g i 0 st = st"
    proof (rule scan_row_none)
      fix k :: int assume "0 \<le> k" "k < cols g"
      with False lt "1.prems"(2) show "blocked g ! nat i ! nat k"
        by (auto simp: is_free_def in_grid_def)
    qed
    with unf have unf': "scan_rows g i st = scan_rows g (i + 1) st" by simp
    from False "1.prems" have "i \<noteq> r" by auto
    with "1.prems" have ir: "i + 1 \<le> r" by simp
    have "\<exists>r' c'. scan_rows g (i + 1) st = (r', c') \<and> is_free g r' c' \<and> i + 1 \<le> r' \<and>
       (\<forall>a b. is_free g a b \<and> i + 1 \<le> a \<longrightarrow> r' < a \<or> (r' = a \<and> c' \<le> b))"
    proof (rule "1.IH" [unfolded \<open>scan_row g i 0 st = st\<close>])
      show "i < rows g \<and> fst st < 0" using lt "1.prems"(1) by simp
      show "fst st < 0" by fact
      show "0 \<le> i + 1" using "1.prems"(2) by simp
      show "i + 1 \<le> r" by fact
      show "is_free g r c" by fact
    qed
    then obtain r' c' where rc: "scan_rows g (i + 1) st = (r', c')" "is_free g r' c'" "i + 1 \<le> r'"
       "\<forall>a b. is_free g a b \<and> i + 1 \<le> a \<longrightarrow> r' < a \<or> (r' = a \<and> c' \<le> b)" by blast
    have "\<forall>a b. is_free g a b \<and> i \<le> a \<longrightarrow> r' < a \<or> (r' = a \<and> c' \<le> b)"
    proof (intro allI impI)
      fix a b assume ab: "is_free g a b \<and> i \<le> a"
      with False have "a \<noteq> i" by auto
      with ab have "i + 1 \<le> a" by simp
      with ab rc(4) show "r' < a \<or> (r' = a \<and> c' \<le> b)" by blast
    qed
    with rc unf' show ?thesis by auto
  qed
qed

lemma explore_step:
  "i < 4 \<Longrightarrow> explore g s i =
     (if unvisited_free g (visited s) (cr s + dr ! i, cc s + dc ! i)
      then Some (enter s (cr s + dr ! i, cc s + dc ! i))
      else explore g s (Suc i))"
  by (subst explore.simps) (simp add: Let_def unvisited_free_def is_free_def in_grid_def enter_def)

lemma explore_end: "\<not> i < 4 \<Longrightarrow> explore g s i = None"
  by (subst explore.simps) simp

lemma explore_unroll:
  "explore g s 0 =
     (if unvisited_free g (visited s) (cr s - 1, cc s) then Some (enter s (cr s - 1, cc s))
      else if unvisited_free g (visited s) (cr s, cc s + 1) then Some (enter s (cr s, cc s + 1))
      else if unvisited_free g (visited s) (cr s + 1, cc s) then Some (enter s (cr s + 1, cc s))
      else if unvisited_free g (visited s) (cr s, cc s - 1) then Some (enter s (cr s, cc s - 1))
      else None)"
  by (simp add: explore_step explore_end dr_def dc_def)

lemma has_unvisited_step:
  "j < 4 \<Longrightarrow> has_unvisited g v r c j =
     (unvisited_free g v (r + dr ! j, c + dc ! j) \<or> has_unvisited g v r c (Suc j))"
  by (subst has_unvisited.simps) (auto simp add: Let_def unvisited_free_def is_free_def in_grid_def)

lemma has_unvisited_end: "\<not> j < 4 \<Longrightarrow> has_unvisited g v r c j = False"
  by (subst has_unvisited.simps) simp

lemma has_unvisited_unroll:
  "has_unvisited g v r c 0 =
     (unvisited_free g v (r - 1, c) \<or> unvisited_free g v (r, c + 1) \<or>
      unvisited_free g v (r + 1, c) \<or> unvisited_free g v (r, c - 1))"
  by (simp add: has_unvisited_step has_unvisited_end dr_def dc_def)

lemma reposition_step:
  "i < 4 \<Longrightarrow> reposition g s i =
     (if can_reposition g (visited s) (cr s + dr ! i, cc s + dc ! i)
      then Some (step_back s (cr s + dr ! i, cc s + dc ! i))
      else reposition g s (Suc i))"
  by (subst reposition.simps)
    (simp add: Let_def can_reposition_def has_unvisited_unroll is_free_def in_grid_def step_back_def
      neighbours_def)

lemma reposition_end: "\<not> i < 4 \<Longrightarrow> reposition g s i = None"
  by (subst reposition.simps) simp

lemma reposition_unroll:
  "reposition g s 0 =
     (if can_reposition g (visited s) (cr s - 1, cc s) then Some (step_back s (cr s - 1, cc s))
      else if can_reposition g (visited s) (cr s, cc s + 1) then Some (step_back s (cr s, cc s + 1))
      else if can_reposition g (visited s) (cr s + 1, cc s) then Some (step_back s (cr s + 1, cc s))
      else if can_reposition g (visited s) (cr s, cc s - 1) then Some (step_back s (cr s, cc s - 1))
      else None)"
  by (simp add: reposition_step reposition_end dr_def dc_def)

lemma shape_ok_set_cell: "shape_ok g v \<Longrightarrow> shape_ok g (set_cell v r c)"
proof (cases "nat r < length v")
  case True
  assume "shape_ok g v"
  with True show ?thesis
    by (auto simp: shape_ok_def set_cell_def list_all_length nth_list_update)
next
  case False
  assume "shape_ok g v"
  with False show ?thesis by (simp add: set_cell_def list_update_beyond)
qed

lemma nth_set_cell:
  "shape_ok g v \<Longrightarrow> in_grid g r c \<Longrightarrow> in_grid g r' c' \<Longrightarrow>
   set_cell v r c ! nat r' ! nat c' = ((r' = r \<and> c' = c) \<or> v ! nat r' ! nat c')"
  by (auto simp: shape_ok_def set_cell_def list_all_length nth_list_update in_grid_def)

lemma shape_ok_replicate: "shape_ok g (replicate (nat (rows g)) (replicate (nat (cols g)) False))"
  by (simp add: shape_ok_def list_all_length)

lemma nth_replicate_grid:
  "in_grid g r c \<Longrightarrow> \<not> replicate (nat (rows g)) (replicate (nat (cols g)) False) ! nat r ! nat c"
  by (simp add: in_grid_def)

lemma adjacent_neighbours: "p \<in> set (neighbours r c) \<Longrightarrow> adjacent (r, c) p"
  by (auto simp: neighbours_def adjacent_def)

lemma trav_inv_enter:
  assumes inv: "trav_inv g s" and p: "p \<in> set (neighbours (cr s) (cc s))"
    and uf: "unvisited_free g (visited s) p"
  shows "trav_inv g (enter s p)"
proof -
  from uf have fr: "is_free g (fst p) (snd p)" and ig: "in_grid g (fst p) (snd p)"
    and nv: "\<not> visited s ! nat (fst p) ! nat (snd p)"
    by (simp_all add: unvisited_free_def is_free_def)
  from inv ig nv have notin: "p \<notin> set (path s)"
    by (auto simp: trav_inv_def)
  from inv have sh: "shape_ok g (visited s)" by (simp add: trav_inv_def)
  have "shape_ok g (visited (enter s p))"
    using sh by (simp add: enter_def shape_ok_set_cell)
  moreover have "path (enter s p) \<noteq> []" "last (path (enter s p)) = (cr (enter s p), cc (enter s p))"
    by (simp_all add: enter_def)
  moreover have "list_all (\<lambda>p. is_free g (fst p) (snd p)) (path (enter s p))"
    using inv fr by (simp add: enter_def trav_inv_def)
  moreover have "\<forall>r c. in_grid g r c \<longrightarrow>
      visited (enter s p) ! nat r ! nat c = ((r, c) \<in> set (path (enter s p)))"
  proof (intro allI impI)
    fix r c assume rc: "in_grid g r c"
    have "visited (enter s p) ! nat r ! nat c = ((r = fst p \<and> c = snd p) \<or> visited s ! nat r ! nat c)"
      using sh ig rc by (simp add: enter_def nth_set_cell)
    also have "\<dots> = ((r, c) = p \<or> (r, c) \<in> set (path s))"
      using inv rc by (auto simp: trav_inv_def)
    finally show "visited (enter s p) ! nat r ! nat c = ((r, c) \<in> set (path (enter s p)))"
      by (auto simp: enter_def)
  qed
  moreover have "unique_count (enter s p) = int (card (set (path (enter s p))))"
    using inv notin by (simp add: enter_def trav_inv_def)
  moreover have "successively adjacent (path (enter s p))"
    using inv adjacent_neighbours [OF p]
    by (simp add: enter_def trav_inv_def successively_append_iff)
  ultimately show ?thesis by (simp add: trav_inv_def)
qed

lemma trav_inv_step_back:
  assumes inv: "trav_inv g s" and p: "p \<in> set (neighbours (cr s) (cc s))"
    and cr: "can_reposition g (visited s) p"
  shows "trav_inv g (step_back s p)"
proof -
  from cr have fr: "is_free g (fst p) (snd p)" and ig: "in_grid g (fst p) (snd p)"
    and vi: "visited s ! nat (fst p) ! nat (snd p)"
    by (simp_all add: can_reposition_def is_free_def)
  from inv ig vi have isin: "p \<in> set (path s)"
    by (auto simp: trav_inv_def)
  then have seteq: "set (path (step_back s p)) = set (path s)"
    by (auto simp: step_back_def)
  have "shape_ok g (visited (step_back s p))"
    using inv by (simp add: step_back_def trav_inv_def)
  moreover have "path (step_back s p) \<noteq> []"
    "last (path (step_back s p)) = (cr (step_back s p), cc (step_back s p))"
    by (simp_all add: step_back_def)
  moreover have "list_all (\<lambda>p. is_free g (fst p) (snd p)) (path (step_back s p))"
    using inv fr by (simp add: step_back_def trav_inv_def)
  moreover have "\<forall>r c. in_grid g r c \<longrightarrow>
      visited (step_back s p) ! nat r ! nat c = ((r, c) \<in> set (path (step_back s p)))"
    unfolding seteq using inv by (simp add: step_back_def trav_inv_def)
  moreover have "unique_count (step_back s p) = int (card (set (path (step_back s p))))"
    unfolding seteq using inv by (simp add: step_back_def trav_inv_def)
  moreover have "successively adjacent (path (step_back s p))"
    using inv adjacent_neighbours [OF p]
    by (simp add: step_back_def trav_inv_def successively_append_iff)
  ultimately show ?thesis by (simp add: trav_inv_def)
qed

lemma try_move_cases:
  assumes "try_move g s = Some s'"
  shows "(\<exists>p. p \<in> set (neighbours (cr s) (cc s)) \<and>
              unvisited_free g (visited s) p \<and> s' = enter s p) \<or>
         (\<exists>p. p \<in> set (neighbours (cr s) (cc s)) \<and>
              can_reposition g (visited s) p \<and> s' = step_back s p)"
  using assms unfolding try_move_def explore_unroll reposition_unroll neighbours_def
  by (auto split: if_splits option.splits)

lemma trav_inv_try_move: "trav_inv g s \<Longrightarrow> try_move g s = Some s' \<Longrightarrow> trav_inv g s'"
  using try_move_cases [of g s s'] trav_inv_enter trav_inv_step_back by blast


lemma trav_inv_step_loop: "trav_inv g s \<Longrightarrow> trav_inv g (step_loop g mp step s)"
proof (induction g mp step s rule: step_loop.induct)
  case (1 g mp step s)
  show ?case
  proof (cases "step < mp")
    case False
    with "1.prems" show ?thesis by (subst step_loop.simps) simp
  next
    case True
    show ?thesis
    proof (cases "try_move g s")
      case None
      with True "1.prems" show ?thesis by (subst step_loop.simps) simp
    next
      case (Some s')
      with "1.prems" have "trav_inv g s'" by (simp add: trav_inv_try_move)
      with "1.IH" [OF True Some] have "trav_inv g (step_loop g mp (step + 1) s')" .
      with True Some show ?thesis by (subst step_loop.simps) simp
    qed
  qed
qed




lemma trav_inv_start:
  assumes "is_free g r c"
  shows "trav_inv g (start_state g r c)"
proof -
  let ?v = "replicate (nat (rows g)) (replicate (nat (cols g)) False)"
  from assms have ig: "in_grid g r c" by (simp add: is_free_def)
  have "\<forall>r' c'. in_grid g r' c' \<longrightarrow> set_cell ?v r c ! nat r' ! nat c' = ((r', c') \<in> set [(r, c)])"
  proof (intro allI impI)
    fix r' c' assume rc: "in_grid g r' c'"
    from nth_set_cell [OF shape_ok_replicate ig rc] nth_replicate_grid [OF rc]
    show "set_cell ?v r c ! nat r' ! nat c' = ((r', c') \<in> set [(r, c)])" by simp
  qed
  then show ?thesis
    using assms by (simp add: trav_inv_def start_state_def shape_ok_set_cell shape_ok_replicate)
qed

lemma solve_path_none: "fst (find_start g) < 0 \<Longrightarrow> solve_path g mp = Some ([], 0)"
  by (cases "find_start g") (simp add: solve_path_def)

lemma solve_path_some:
  "find_start g = (r, c) \<Longrightarrow> 0 \<le> r \<Longrightarrow> 0 \<le> mp \<Longrightarrow> mp < INT_MAX \<Longrightarrow>
   solve_path g mp = Some (path (step_loop g mp 0 (start_state g r c)),
                           unique_count (step_loop g mp 0 (start_state g r c)))"
  by (simp add: solve_path_def start_state_def Let_def)

lemma solve_path_overrun:
  "find_start g = (r, c) \<Longrightarrow> 0 \<le> r \<Longrightarrow> mp < 0 \<Longrightarrow> solve_path g mp = None"
  by (simp add: solve_path_def Let_def)

lemma solve_path_overflow:
  "find_start g = (r, c) \<Longrightarrow> 0 \<le> r \<Longrightarrow> INT_MAX \<le> mp \<Longrightarrow> solve_path g mp = None"
  by (simp add: solve_path_def Let_def)

lemma find_start_first:
  assumes "is_free g r c"
  shows "\<exists>r0 c0. find_start g = (r0, c0) \<and> is_free g r0 c0 \<and>
           (\<forall>a b. is_free g a b \<longrightarrow> r0 < a \<or> (r0 = a \<and> c0 \<le> b))"
proof -
  from assms have r0: "0 \<le> r" by (simp add: is_free_def in_grid_def)
  have nonneg: "\<And>a b. is_free g a b \<Longrightarrow> 0 \<le> a" by (simp add: is_free_def in_grid_def)
  from scan_rows_found [of "(-1, -1)" 0 r g c] r0 assms
  obtain r' c' where rc: "scan_rows g 0 (-1, -1) = (r', c')" "is_free g r' c'"
    "\<forall>a b. is_free g a b \<and> 0 \<le> a \<longrightarrow> r' < a \<or> (r' = a \<and> c' \<le> b)"
    by auto
  from rc(3) nonneg have "\<forall>a b. is_free g a b \<longrightarrow> r' < a \<or> (r' = a \<and> c' \<le> b)" by blast
  with rc(1,2) show ?thesis by (auto simp: find_start_def)
qed

lemma find_start_none:
  assumes "\<And>r c. \<not> is_free g r c"
  shows "find_start g = (-1, -1)"
  unfolding find_start_def using assms by (intro scan_rows_none) auto

lemma solve_path_run:
  assumes "is_free g r c" and "0 \<le> mp" and "mp < INT_MAX"
  shows "\<exists>r0 c0. is_free g r0 c0 \<and>
           (\<forall>a b. is_free g a b \<longrightarrow> r0 < a \<or> (r0 = a \<and> c0 \<le> b)) \<and>
           solve_path g mp = Some (path (step_loop g mp 0 (start_state g r0 c0)),
                                   unique_count (step_loop g mp 0 (start_state g r0 c0)))"
proof -
  from find_start_first [OF assms(1)] obtain r0 c0 where
    f: "find_start g = (r0, c0)" "is_free g r0 c0"
       "\<forall>a b. is_free g a b \<longrightarrow> r0 < a \<or> (r0 = a \<and> c0 \<le> b)" by blast
  from f(2) have "0 \<le> r0" by (simp add: is_free_def in_grid_def)
  from solve_path_some [OF f(1) this assms(2,3)] f(2,3) show ?thesis by blast
qed

lemma solve_path_inv:
  assumes "is_free g r c" and "0 \<le> mp" and "mp < INT_MAX"
  shows "\<exists>s. trav_inv g s \<and> solve_path g mp = Some (path s, unique_count s)"
proof -
  from solve_path_run [OF assms] obtain r0 c0 where
    f: "is_free g r0 c0"
       "solve_path g mp = Some (path (step_loop g mp 0 (start_state g r0 c0)),
                                unique_count (step_loop g mp 0 (start_state g r0 c0)))" by blast
  from trav_inv_step_loop [OF trav_inv_start [OF f(1)]] f(2) show ?thesis by blast
qed

lemma solve_path_blocked:
  assumes "\<And>r c. \<not> is_free g r c"
  shows "solve_path g mp = Some ([], 0)"
  using find_start_none [of g] assms by (simp add: solve_path_none)

lemma solve_path_undefined:
  assumes "is_free g r c" and "mp < 0 \<or> INT_MAX \<le> mp"
  shows "solve_path g mp = None"
proof -
  from find_start_first [OF assms(1)] obtain r0 c0 where
    f: "find_start g = (r0, c0)" "is_free g r0 c0" by blast
  from f(2) have "0 \<le> r0" by (simp add: is_free_def in_grid_def)
  with assms(2) f(1) show ?thesis
    using solve_path_overrun [of g r0 c0 mp] solve_path_overflow [of g r0 c0 mp] by blast
qed

lemma solve_path_returns:
  assumes "0 \<le> mp" and "mp < INT_MAX"
  shows "\<exists>p u. solve_path g mp = Some (p, u)"
proof (cases "\<exists>r c. is_free g r c")
  case False
  then have "solve_path g mp = Some ([], 0)" by (intro solve_path_blocked) blast
  then show ?thesis by blast
next
  case True
  then obtain r c where "is_free g r c" by blast
  from solve_path_inv [OF this assms] show ?thesis by blast
qed

lemma solve_path_cases:
  assumes "solve_path g mp = Some (p, u)"
  shows "(p = [] \<and> u = 0) \<or>
         (0 \<le> mp \<and> mp < INT_MAX \<and> (\<exists>s. trav_inv g s \<and> p = path s \<and> u = unique_count s))"
proof (cases "\<exists>r c. is_free g r c")
  case False
  then have "solve_path g mp = Some ([], 0)" by (intro solve_path_blocked) blast
  with assms show ?thesis by simp
next
  case True
  then obtain r c where fr: "is_free g r c" by blast
  show ?thesis
  proof (cases "0 \<le> mp \<and> mp < INT_MAX")
    case True
    with solve_path_inv [OF fr, of mp] assms show ?thesis by auto
  next
    case False
    then have "mp < 0 \<or> INT_MAX \<le> mp" by auto
    from solve_path_undefined [OF fr this] assms show ?thesis by simp
  qed
qed


lemma successively_nth:
  "successively P xs \<Longrightarrow> Suc i < length xs \<Longrightarrow> P (xs ! i) (xs ! Suc i)"
proof (induction xs arbitrary: i)
  case Nil
  then show ?case by simp
next
  case (Cons x xs)
  show ?case
  proof (cases i)
    case 0
    with Cons.prems show ?thesis by (cases xs) (auto simp: successively_Cons)
  next
    case (Suc j)
    with Cons.prems have "successively P xs" "Suc j < length xs"
      by (auto simp: successively_Cons)
    from Cons.IH [OF this] Suc show ?thesis by simp
  qed
qed

lemma nat_less_4_cases: "k < 4 \<Longrightarrow> k = 0 \<or> k = Suc 0 \<or> k = 2 \<or> k = (3::nat)"
  by arith

lemma try_move_explore: "explore g s 0 = Some s' \<Longrightarrow> try_move g s = Some s'"
  by (simp add: try_move_def)

lemma try_move_reposition: "explore g s 0 = None \<Longrightarrow> try_move g s = reposition g s 0"
  by (simp add: try_move_def)

lemma step_loop_move:
  "step < mp \<Longrightarrow> try_move g s = Some s' \<Longrightarrow> step_loop g mp step s = step_loop g mp (step + 1) s'"
  by (subst step_loop.simps) simp

lemma step_loop_stop: "try_move g s = None \<Longrightarrow> step_loop g mp step s = s"
  by (subst step_loop.simps) simp

lemma explore_first_fit:
  assumes "k < 4"
    and "unvisited_free g (visited s) (neighbours (cr s) (cc s) ! k)"
    and "\<forall>j<k. \<not> unvisited_free g (visited s) (neighbours (cr s) (cc s) ! j)"
  shows "explore g s 0 = Some (enter s (neighbours (cr s) (cc s) ! k))"
proof -
  have n0: "0 < k \<Longrightarrow> \<not> unvisited_free g (visited s) (cr s - 1, cc s)"
    using assms(3) [rule_format, of 0] by (simp add: neighbours_def)
  have n1: "1 < k \<Longrightarrow> \<not> unvisited_free g (visited s) (cr s, cc s + 1)"
    using assms(3) [rule_format, of 1] by (simp add: neighbours_def)
  have n2: "2 < k \<Longrightarrow> \<not> unvisited_free g (visited s) (cr s + 1, cc s)"
    using assms(3) [rule_format, of 2] by (simp add: neighbours_def)
  from nat_less_4_cases [OF assms(1)] show ?thesis
  proof (elim disjE)
    assume "k = 0"
    with assms(2) show ?thesis by (simp add: explore_unroll neighbours_def)
  next
    assume "k = Suc 0"
    with assms(2) n0 show ?thesis by (simp add: explore_unroll neighbours_def)
  next
    assume "k = 2"
    with assms(2) n0 n1 show ?thesis by (simp add: explore_unroll neighbours_def)
  next
    assume "k = 3"
    with assms(2) n0 n1 n2 show ?thesis by (simp add: explore_unroll neighbours_def)
  qed
qed

lemma explore_none:
  assumes "\<forall>j<4. \<not> unvisited_free g (visited s) (neighbours (cr s) (cc s) ! j)"
  shows "explore g s 0 = None"
proof -
  have "\<not> unvisited_free g (visited s) (cr s - 1, cc s)"
    using assms [rule_format, of 0] by (simp add: neighbours_def)
  moreover have "\<not> unvisited_free g (visited s) (cr s, cc s + 1)"
    using assms [rule_format, of 1] by (simp add: neighbours_def)
  moreover have "\<not> unvisited_free g (visited s) (cr s + 1, cc s)"
    using assms [rule_format, of 2] by (simp add: neighbours_def)
  moreover have "\<not> unvisited_free g (visited s) (cr s, cc s - 1)"
    using assms [rule_format, of 3] by (simp add: neighbours_def)
  ultimately show ?thesis by (simp add: explore_unroll)
qed

lemma reposition_first_fit:
  assumes "k < 4"
    and "can_reposition g (visited s) (neighbours (cr s) (cc s) ! k)"
    and "\<forall>j<k. \<not> can_reposition g (visited s) (neighbours (cr s) (cc s) ! j)"
  shows "reposition g s 0 = Some (step_back s (neighbours (cr s) (cc s) ! k))"
proof -
  have n0: "0 < k \<Longrightarrow> \<not> can_reposition g (visited s) (cr s - 1, cc s)"
    using assms(3) [rule_format, of 0] by (simp add: neighbours_def)
  have n1: "1 < k \<Longrightarrow> \<not> can_reposition g (visited s) (cr s, cc s + 1)"
    using assms(3) [rule_format, of 1] by (simp add: neighbours_def)
  have n2: "2 < k \<Longrightarrow> \<not> can_reposition g (visited s) (cr s + 1, cc s)"
    using assms(3) [rule_format, of 2] by (simp add: neighbours_def)
  from nat_less_4_cases [OF assms(1)] show ?thesis
  proof (elim disjE)
    assume "k = 0"
    with assms(2) show ?thesis by (simp add: reposition_unroll neighbours_def)
  next
    assume "k = Suc 0"
    with assms(2) n0 show ?thesis by (simp add: reposition_unroll neighbours_def)
  next
    assume "k = 2"
    with assms(2) n0 n1 show ?thesis by (simp add: reposition_unroll neighbours_def)
  next
    assume "k = 3"
    with assms(2) n0 n1 n2 show ?thesis by (simp add: reposition_unroll neighbours_def)
  qed
qed

lemma reposition_none:
  assumes "\<forall>j<4. \<not> can_reposition g (visited s) (neighbours (cr s) (cc s) ! j)"
  shows "reposition g s 0 = None"
proof -
  have "\<not> can_reposition g (visited s) (cr s - 1, cc s)"
    using assms [rule_format, of 0] by (simp add: neighbours_def)
  moreover have "\<not> can_reposition g (visited s) (cr s, cc s + 1)"
    using assms [rule_format, of 1] by (simp add: neighbours_def)
  moreover have "\<not> can_reposition g (visited s) (cr s + 1, cc s)"
    using assms [rule_format, of 2] by (simp add: neighbours_def)
  moreover have "\<not> can_reposition g (visited s) (cr s, cc s - 1)"
    using assms [rule_format, of 3] by (simp add: neighbours_def)
  ultimately show ?thesis by (simp add: reposition_unroll)
qed

lemma all_less_4: "(\<forall>j<4. P j) = (P 0 \<and> P (Suc 0) \<and> P 2 \<and> P (3::nat))"
proof
  assume "\<forall>j<4. P j"
  then show "P 0 \<and> P (Suc 0) \<and> P 2 \<and> P 3" by simp
next
  assume a: "P 0 \<and> P (Suc 0) \<and> P 2 \<and> P 3"
  show "\<forall>j<4. P j"
  proof (intro allI impI)
    fix j :: nat assume "j < 4"
    from nat_less_4_cases [OF this] a show "P j" by auto
  qed
qed

lemma all_less_3: "(\<forall>j<3. P j) = (P 0 \<and> P (Suc 0) \<and> P (2::nat))"
proof
  assume "\<forall>j<3. P j"
  then show "P 0 \<and> P (Suc 0) \<and> P 2" by simp
next
  assume a: "P 0 \<and> P (Suc 0) \<and> P 2"
  show "\<forall>j<3. P j"
  proof (intro allI impI)
    fix j :: nat assume "j < 3"
    then have "j = 0 \<or> j = Suc 0 \<or> j = 2" by arith
    with a show "P j" by auto
  qed
qed

section \<open>Lemmas about the obstacle generator\<close>

lemma grid_ok_shape: "grid_ok g \<Longrightarrow> shape_ok g (blocked g)"
  by (simp add: grid_ok_def shape_ok_def)

lemma in_grid_blocked_update [simp]: "in_grid (g\<lparr>blocked := b\<rparr>) r c = in_grid g r c"
  by (simp add: in_grid_def)

lemma grid_ok_set_cell: "grid_ok g \<Longrightarrow> grid_ok (g\<lparr>blocked := set_cell (blocked g) r c\<rparr>)"
  using shape_ok_set_cell [of g "blocked g" r c] by (simp add: grid_ok_def shape_ok_def)

lemma blocked_cells_set_cell:
  assumes "grid_ok g" and "in_grid g r c"
  shows "blocked_cells (g\<lparr>blocked := set_cell (blocked g) r c\<rparr>) = insert (r, c) (blocked_cells g)"
proof -
  have "\<And>r' c'. in_grid g r' c' \<Longrightarrow>
      set_cell (blocked g) r c ! nat r' ! nat c' = ((r' = r \<and> c' = c) \<or> blocked g ! nat r' ! nat c')"
    using nth_set_cell [OF grid_ok_shape [OF assms(1)] assms(2)] by blast
  with assms(2) show ?thesis by (auto simp: blocked_cells_def)
qed

lemma in_grid_mod: "grid_ok g \<Longrightarrow> in_grid g (int x mod rows g) (int y mod cols g)"
  by (simp add: grid_ok_def in_grid_def)

lemma place_loop_sound:
  "grid_ok g \<Longrightarrow>
   \<exists>ms'. marked (place_loop g n placed ms rs) = ms @ ms' \<and> distinct ms' \<and>
         list_all (\<lambda>p. is_free g (fst p) (snd p)) ms' \<and>
         blocked_cells (grid_after (place_loop g n placed ms rs)) = blocked_cells g \<union> set ms' \<and>
         int (length ms') \<le> max 0 (n - placed) \<and>
         grid_ok (grid_after (place_loop g n placed ms rs)) \<and>
         rows (grid_after (place_loop g n placed ms rs)) = rows g \<and>
         cols (grid_after (place_loop g n placed ms rs)) = cols g"
proof (induction g n placed ms rs rule: place_loop.induct)
  case (1 g n placed ms rs)
  note ok = \<open>grid_ok g\<close>
  have stop: "place_loop g n placed ms rs = \<lparr>grid_after = g, marked = ms, returned = b\<rparr> \<Longrightarrow> ?case" for b
    using ok by (intro exI [of _ "[]"]) simp
  show ?case
  proof (cases "placed < n")
    case False
    then have "place_loop g n placed ms rs = \<lparr>grid_after = g, marked = ms, returned = True\<rparr>"
      by (subst place_loop.simps) simp
    then show ?thesis by (rule stop)
  next
    case lt: True
    show ?thesis
    proof (cases rs)
      case Nil
      with lt have "place_loop g n placed ms rs = \<lparr>grid_after = g, marked = ms, returned = False\<rparr>"
        by (subst place_loop.simps) simp
      then show ?thesis by (rule stop)
    next
      case (Cons x xs)
      show ?thesis
      proof (cases xs)
        case Nil
        with lt Cons
        have "place_loop g n placed ms rs = \<lparr>grid_after = g, marked = ms, returned = False\<rparr>"
          by (subst place_loop.simps) simp
        then show ?thesis by (rule stop)
      next
        case xs: (Cons y rest)
        define r where "r = int x mod rows g"
        define c where "c = int y mod cols g"
        have ig: "in_grid g r c" unfolding r_def c_def by (rule in_grid_mod [OF ok])
        show ?thesis
        proof (cases "blocked g ! nat r ! nat c")
          case True
          have eq: "place_loop g n placed ms rs = place_loop g n placed ms rest"
            using lt Cons xs True by (subst place_loop.simps) (simp add: r_def c_def Let_def)
          from "1.IH"(1) [OF lt Cons xs r_def c_def True ok] show ?thesis
            unfolding eq .
        next
          case False
          let ?g' = "g\<lparr>blocked := set_cell (blocked g) r c\<rparr>"
          let ?res = "place_loop ?g' n (placed + 1) (ms @ [(r, c)]) rest"
          have eq: "place_loop g n placed ms rs = ?res"
            using lt Cons xs False by (subst place_loop.simps) (simp add: r_def c_def Let_def)
          have ok': "grid_ok ?g'" by (rule grid_ok_set_cell [OF ok])
          have bc: "blocked_cells ?g' = insert (r, c) (blocked_cells g)"
            by (rule blocked_cells_set_cell [OF ok ig])
          from "1.IH"(2) [OF lt Cons xs r_def c_def False ok']
          obtain ms' where m: "marked ?res = (ms @ [(r, c)]) @ ms'" "distinct ms'"
            "list_all (\<lambda>p. is_free ?g' (fst p) (snd p)) ms'"
            "blocked_cells (grid_after ?res) = blocked_cells ?g' \<union> set ms'"
            "int (length ms') \<le> max 0 (n - (placed + 1))"
            "grid_ok (grid_after ?res)" "rows (grid_after ?res) = rows ?g'"
            "cols (grid_after ?res) = cols ?g'"
            by blast
          have free_rc: "is_free g r c" using ig False by (simp add: is_free_def)
          have sub: "\<And>p. is_free ?g' (fst p) (snd p) \<Longrightarrow> is_free g (fst p) (snd p) \<and> p \<noteq> (r, c)"
          proof -
            fix p assume a: "is_free ?g' (fst p) (snd p)"
            then have ip: "in_grid g (fst p) (snd p)" by (simp add: is_free_def)
            from a have "p \<notin> blocked_cells ?g'"
              by (cases p) (simp add: blocked_cells_def is_free_def)
            then have "p \<notin> insert (r, c) (blocked_cells g)" unfolding bc .
            with ip show "is_free g (fst p) (snd p) \<and> p \<noteq> (r, c)"
              by (cases p) (auto simp: blocked_cells_def is_free_def)
          qed
          from m(3) sub have fr: "list_all (\<lambda>p. is_free g (fst p) (snd p)) ms'"
            and notin: "(r, c) \<notin> set ms'"
            by (auto simp: list_all_iff)
          have "marked ?res = ms @ ((r, c) # ms')" using m(1) by simp
          moreover have "distinct ((r, c) # ms')" using m(2) notin by simp
          moreover have "list_all (\<lambda>p. is_free g (fst p) (snd p)) ((r, c) # ms')"
            using fr free_rc by simp
          moreover have "blocked_cells (grid_after ?res) = blocked_cells g \<union> set ((r, c) # ms')"
            using m(4) bc by auto
          moreover have "int (length ((r, c) # ms')) \<le> max 0 (n - placed)"
            using m(5) lt by simp
          moreover have "grid_ok (grid_after ?res)" "rows (grid_after ?res) = rows g"
            "cols (grid_after ?res) = cols g"
            using m(6,7,8) by simp_all
          ultimately show ?thesis unfolding eq by blast
        qed
      qed
    qed
  qed
qed

lemma count_row_card:
  "count_row g r c n = n + int (card {c'. c \<le> c' \<and> c' < cols g \<and> blocked g ! nat r ! nat c'})"
proof (induction g r c n rule: count_row.induct)
  case (1 g r c n)
  let ?S = "\<lambda>c. {c'. c \<le> c' \<and> c' < cols g \<and> blocked g ! nat r ! nat c'}"
  show ?case
  proof (cases "c < cols g")
    case False
    then have "?S c = {}" by auto
    then have "int (card (?S c)) = 0" by (simp only: card.empty of_nat_0)
    moreover from False have "count_row g r c n = n" by (subst count_row.simps) simp
    ultimately show ?thesis by (simp only: add_0_right)
  next
    case True
    have fin: "finite (?S (c + 1))" by (rule finite_subset [of _ "{c + 1..<cols g}"]) auto
    have notin: "c \<notin> ?S (c + 1)" by simp
    have unf: "count_row g r c n =
        count_row g r (c + 1) (if blocked g ! nat r ! nat c then n + 1 else n)"
      using True by (subst count_row.simps) simp
    show ?thesis
    proof (cases "blocked g ! nat r ! nat c")
      case b: True
      have "?S c = insert c (?S (c + 1))"
      proof (rule set_eqI)
        fix x show "x \<in> ?S c \<longleftrightarrow> x \<in> insert c (?S (c + 1))"
          using True b by (cases "x = c") auto
      qed
      moreover have "card (insert c (?S (c + 1))) = Suc (card (?S (c + 1)))"
        by (rule card_insert_disjoint [OF fin notin])
      ultimately have "card (?S c) = Suc (card (?S (c + 1)))" by (simp only:)
      with "1.IH" [OF True] unf b show ?thesis by simp
    next
      case b: False
      have "?S c = ?S (c + 1)"
      proof (rule set_eqI)
        fix x show "x \<in> ?S c \<longleftrightarrow> x \<in> ?S (c + 1)"
          using b by (cases "x = c") auto
      qed
      with "1.IH" [OF True] unf b show ?thesis by simp
    qed
  qed
qed

lemma count_rows_card:
  "count_rows g r n =
     n + int (card {(r', c'). r \<le> r' \<and> r' < rows g \<and> 0 \<le> c' \<and> c' < cols g \<and>
                            blocked g ! nat r' ! nat c'})"
proof (induction g r n rule: count_rows.induct)
  case (1 g r n)
  let ?T = "\<lambda>r. {(r', c'). r \<le> r' \<and> r' < rows g \<and> 0 \<le> c' \<and> c' < cols g \<and>
                            blocked g ! nat r' ! nat c'}"
  let ?S = "{c'. 0 \<le> c' \<and> c' < cols g \<and> blocked g ! nat r ! nat c'}"
  show ?case
  proof (cases "r < rows g")
    case False
    then have "?T r = {}" by auto
    then have "int (card (?T r)) = 0" by (simp only: card.empty of_nat_0)
    moreover from False have "count_rows g r n = n" by (subst count_rows.simps) simp
    ultimately show ?thesis by (simp only: add_0_right)
  next
    case True
    have finS: "finite ?S" by (rule finite_subset [of _ "{0..<cols g}"]) auto
    have finT: "finite (?T (r + 1))"
      by (rule finite_subset [of _ "{r + 1..<rows g} \<times> {0..<cols g}"]) auto
    have split: "?T r = Pair r ` ?S \<union> ?T (r + 1)"
    proof (rule set_eqI)
      fix x :: "int \<times> int"
      obtain a b where x: "x = (a, b)" by (cases x)
      show "x \<in> ?T r \<longleftrightarrow> x \<in> Pair r ` ?S \<union> ?T (r + 1)"
        unfolding x using True by (cases "a = r") auto
    qed
    have disj: "Pair r ` ?S \<inter> ?T (r + 1) = {}" by auto
    have "card (Pair r ` ?S) = card ?S" by (rule card_image) (simp add: inj_on_def)
    with split disj finS finT have "card (?T r) = card ?S + card (?T (r + 1))"
      by (simp add: card_Un_disjoint)
    moreover have "count_rows g r n = count_rows g (r + 1) (count_row g r 0 n)"
      using True by (subst count_rows.simps) simp
    ultimately show ?thesis using "1.IH" [OF True] by (simp add: count_row_card)
  qed
qed

lemma count_rows_blocked_cells: "count_rows g 0 0 = int (card (blocked_cells g))"
proof -
  have "blocked_cells g = {(r', c'). 0 \<le> r' \<and> r' < rows g \<and> 0 \<le> c' \<and> c' < cols g \<and>
                            blocked g ! nat r' ! nat c'}"
    by (auto simp: blocked_cells_def in_grid_def)
  then show ?thesis by (simp add: count_rows_card)
qed

lemma finite_blocked_cells: "finite (blocked_cells g)"
  by (rule finite_subset [of _ "{0..<rows g} \<times> {0..<cols g}"])
    (auto simp: blocked_cells_def in_grid_def)

lemma card_all_blocked:
  assumes "grid_ok g" and "\<forall>r c. in_grid g r c \<longrightarrow> blocked g ! nat r ! nat c"
  shows "int (card (blocked_cells g)) = rows g * cols g"
proof -
  from assms(2) have "blocked_cells g = {0..<rows g} \<times> {0..<cols g}"
    by (auto simp: blocked_cells_def in_grid_def)
  then have "card (blocked_cells g) = nat (rows g) * nat (cols g)"
    by (simp add: card_cartesian_product)
  then have "int (card (blocked_cells g)) = int (nat (rows g) * nat (cols g))"
    by (simp only:)
  also have "\<dots> = rows g * cols g" using assms(1) by (simp add: grid_ok_def)
  finally show ?thesis .
qed

lemma generate_blocked_sound:
  assumes "grid_ok g"
  shows "distinct (marked (generate_blocked g n rs)) \<and>
         list_all (\<lambda>p. is_free g (fst p) (snd p)) (marked (generate_blocked g n rs)) \<and>
         blocked_cells (grid_after (generate_blocked g n rs)) =
           blocked_cells g \<union> set (marked (generate_blocked g n rs)) \<and>
         int (length (marked (generate_blocked g n rs)))
           \<le> min (max 0 n) (rows g * cols g - int (card (blocked_cells g)))"
proof -
  let ?avail = "rows g * cols g - int (card (blocked_cells g))"
  have "blocked_cells g \<subseteq> {0..<rows g} \<times> {0..<cols g}"
    by (auto simp: blocked_cells_def in_grid_def)
  then have "card (blocked_cells g) \<le> card ({0..<rows g} \<times> {0..<cols g})"
    by (intro card_mono) auto
  then have "card (blocked_cells g) \<le> nat (rows g) * nat (cols g)"
    by (simp add: card_cartesian_product)
  then have "int (card (blocked_cells g)) \<le> int (nat (rows g) * nat (cols g))"
    by (simp only: of_nat_le_iff)
  also have "\<dots> = rows g * cols g" using assms by (simp add: grid_ok_def)
  finally have avail0: "0 \<le> ?avail" by simp
  show ?thesis
  proof (cases "n \<le> 0 \<or> ?avail \<le> 0")
    case True
    then have "generate_blocked g n rs = \<lparr>grid_after = g, marked = [], returned = True\<rparr>"
      by (auto simp: generate_blocked_def count_rows_blocked_cells Let_def)
    with avail0 show ?thesis by simp
  next
    case False
    let ?m = "if n > ?avail then ?avail else n"
    from False have eq: "generate_blocked g n rs = place_loop g ?m 0 [] rs"
      by (simp add: generate_blocked_def count_rows_blocked_cells Let_def)
    from place_loop_sound [OF assms, of ?m 0 "[]" rs]
    obtain ms' where m: "marked (place_loop g ?m 0 [] rs) = [] @ ms'" "distinct ms'"
      "list_all (\<lambda>p. is_free g (fst p) (snd p)) ms'"
      "blocked_cells (grid_after (place_loop g ?m 0 [] rs)) = blocked_cells g \<union> set ms'"
      "int (length ms') \<le> max 0 (?m - 0)" by blast
    from m(5) False have "int (length ms') \<le> min (max 0 n) ?avail"
      by (auto split: if_splits)
    with m(1-4) show ?thesis unfolding eq by simp
  qed
qed

lemma shape_ok_mark_blocked:
  "shape_ok \<lparr>rows = rs, cols = cs, blocked = b\<rparr> a \<Longrightarrow>
   shape_ok \<lparr>rows = rs, cols = cs, blocked = b\<rparr> (mark_blocked rs cs a bl)"
proof (induction bl arbitrary: a)
  case Nil
  then show ?case by simp
next
  case (Cons p bl)
  obtain r c where p: "p = (r, c)" by (cases p)
  from Cons.prems have "shape_ok \<lparr>rows = rs, cols = cs, blocked = b\<rparr> (set_cell a r c)"
    by (rule shape_ok_set_cell)
  with Cons show ?case unfolding p by simp
qed

lemma create_grid_ok:
  assumes "0 < rs" and "0 < cs"
  shows "grid_ok (create_grid rs cs blocked_count blocked_list)"
proof -
  let ?a = "replicate (nat rs) (replicate (nat cs) False)"
  have "shape_ok \<lparr>rows = rs, cols = cs, blocked = []\<rparr> ?a"
    by (simp add: shape_ok_def list_all_length)
  then have "shape_ok \<lparr>rows = rs, cols = cs, blocked = []\<rparr>
      (mark_blocked rs cs ?a (take (nat blocked_count) blocked_list))"
    by (rule shape_ok_mark_blocked)
  with assms show ?thesis by (simp add: grid_ok_def create_grid_def shape_ok_def)
qed

section \<open>The claims\<close>




text \<open>
  Claim C2. In a step, let \<open>(nr, nc)\<close> be the first of the neighbours up,
  right, down, left of the current cell that is in bounds, free and not visited
  (index \<open>k\<close>, no earlier index qualifies). Then the loop body moves there: the
  cell becomes the current cell, its visited flag is set, it is appended to the
  path and \<^verbatim>\<open>unique_count\<close> grows by one; the step loop goes on from that state
  with the next counter value.
\<close>

theorem tier1_first_fit:
  assumes "k < 4"
    and "neighbours (cr s) (cc s) ! k = (nr, nc)"
    and "unvisited_free g (visited s) (nr, nc)"
    and "\<forall>j<k. \<not> unvisited_free g (visited s) (neighbours (cr s) (cc s) ! j)"
  shows "try_move g s =
           Some (s\<lparr>cr := nr, cc := nc, visited := set_cell (visited s) nr nc,
                   path := path s @ [(nr, nc)], unique_count := unique_count s + 1\<rparr>) \<and>
         (step < movement_points \<longrightarrow>
            step_loop g movement_points step s =
            step_loop g movement_points (step + 1)
              (s\<lparr>cr := nr, cc := nc, visited := set_cell (visited s) nr nc,
                 path := path s @ [(nr, nc)], unique_count := unique_count s + 1\<rparr>))"
proof -
  from assms have "explore g s 0 = Some (enter s (nr, nc))"
    using explore_first_fit [of k g s] by simp
  then have "try_move g s = Some (enter s (nr, nc))" by (rule try_move_explore)
  then show ?thesis using step_loop_move [of step movement_points g s "enter s (nr, nc)"]
    by (simp add: enter_def)
qed

theorem tier1_first_fit_witness:
  "try_move (create_grid 2 3 2 [(1, 0), (1, 2)])
     \<lparr>cr = 0, cc = 0, visited = [[True, False, False], [False, False, False]],
      path = [(0, 0)], unique_count = 1\<rparr> =
   Some \<lparr>cr = 0, cc = 1, visited = [[True, True, False], [False, False, False]],
         path = [(0, 0), (0, 1)], unique_count = 2\<rparr> \<and>
   step_loop (create_grid 2 3 2 [(1, 0), (1, 2)]) 4 0
     \<lparr>cr = 0, cc = 0, visited = [[True, False, False], [False, False, False]],
      path = [(0, 0)], unique_count = 1\<rparr> =
   step_loop (create_grid 2 3 2 [(1, 0), (1, 2)]) 4 1
     \<lparr>cr = 0, cc = 1, visited = [[True, True, False], [False, False, False]],
      path = [(0, 0), (0, 1)], unique_count = 2\<rparr>"
proof -
  let ?g = "create_grid 2 3 2 [(1, 0), (1, 2)]"
  let ?s = "\<lparr>cr = 0, cc = 0, visited = [[True, False, False], [False, False, False]],
      path = [(0, 0)], unique_count = 1\<rparr>"
  have h1: "(1::nat) < 4" by simp
  have h2: "neighbours (cr ?s) (cc ?s) ! 1 = (0, 1)" by (simp add: neighbours_def)
  have h3: "unvisited_free ?g (visited ?s) (0, 1)" by code_simp
  have h4: "\<forall>j<1. \<not> unvisited_free ?g (visited ?s) (neighbours (cr ?s) (cc ?s) ! j)"
    by (simp add: neighbours_def unvisited_free_def is_free_def in_grid_def)
  from tier1_first_fit [OF h1 h2 h3 h4, of 0 4] show ?thesis
    by (simp add: set_cell_def)
qed

text \<open>
  Claim C3. In a step in which no neighbour is in bounds, free and unvisited:
  if \<open>(nr, nc)\<close> is the first of the neighbours up, right, down, left that is in
  bounds, free and visited and has an in-bounds, free, unvisited neighbour of
  its own, the loop body moves there, appending the cell to the path and leaving
  the visited flags and \<^verbatim>\<open>unique_count\<close> as they are, whatever the path holds
  already; if no neighbour qualifies, the body makes no move and the step loop
  ends in the state it is in, whatever budget remains.
\<close>

theorem tier2_reposition_or_stop:
  assumes "\<forall>j<4. \<not> unvisited_free g (visited s) (neighbours (cr s) (cc s) ! j)"
  shows "(k < 4 \<and> neighbours (cr s) (cc s) ! k = (nr, nc) \<and>
            can_reposition g (visited s) (nr, nc) \<and>
            (\<forall>j<k. \<not> can_reposition g (visited s) (neighbours (cr s) (cc s) ! j)) \<longrightarrow>
            try_move g s = Some (s\<lparr>cr := nr, cc := nc, path := path s @ [(nr, nc)]\<rparr>) \<and>
            (step < movement_points \<longrightarrow>
               step_loop g movement_points step s =
               step_loop g movement_points (step + 1)
                 (s\<lparr>cr := nr, cc := nc, path := path s @ [(nr, nc)]\<rparr>))) \<and>
         ((\<forall>j<4. \<not> can_reposition g (visited s) (neighbours (cr s) (cc s) ! j)) \<longrightarrow>
            try_move g s = None \<and> step_loop g movement_points step s = s)"
proof -
  from assms have ex: "explore g s 0 = None" by (rule explore_none)
  then have tm: "try_move g s = reposition g s 0" by (rule try_move_reposition)
  show ?thesis
  proof (intro conjI impI)
    assume a: "k < 4 \<and> neighbours (cr s) (cc s) ! k = (nr, nc) \<and>
            can_reposition g (visited s) (nr, nc) \<and>
            (\<forall>j<k. \<not> can_reposition g (visited s) (neighbours (cr s) (cc s) ! j))"
    then have "reposition g s 0 = Some (step_back s (nr, nc))"
      using reposition_first_fit [of k g s] by simp
    with tm have t: "try_move g s = Some (step_back s (nr, nc))" by simp
    then show "try_move g s = Some (s\<lparr>cr := nr, cc := nc, path := path s @ [(nr, nc)]\<rparr>)"
      by (simp add: step_back_def)
    assume "step < movement_points"
    from step_loop_move [OF this t]
    show "step_loop g movement_points step s =
          step_loop g movement_points (step + 1)
            (s\<lparr>cr := nr, cc := nc, path := path s @ [(nr, nc)]\<rparr>)"
      by (simp add: step_back_def)
  next
    assume "\<forall>j<4. \<not> can_reposition g (visited s) (neighbours (cr s) (cc s) ! j)"
    then have "reposition g s 0 = None" by (rule reposition_none)
    with tm show n: "try_move g s = None" by simp
    then show "step_loop g movement_points step s = s" by (rule step_loop_stop)
  qed
qed

theorem tier2_reposition_or_stop_witness:
  "try_move (create_grid 2 3 2 [(1, 0), (1, 2)])
     \<lparr>cr = 0, cc = 2, visited = [[True, True, True], [False, False, False]],
      path = [(0, 0), (0, 1), (0, 2)], unique_count = 3\<rparr> =
   Some \<lparr>cr = 0, cc = 1, visited = [[True, True, True], [False, False, False]],
         path = [(0, 0), (0, 1), (0, 2), (0, 1)], unique_count = 3\<rparr> \<and>
   try_move (create_grid 1 1 0 [])
     \<lparr>cr = 0, cc = 0, visited = [[True]], path = [(0, 0)], unique_count = 1\<rparr> = None \<and>
   step_loop (create_grid 1 1 0 []) 5 0
     \<lparr>cr = 0, cc = 0, visited = [[True]], path = [(0, 0)], unique_count = 1\<rparr> =
   \<lparr>cr = 0, cc = 0, visited = [[True]], path = [(0, 0)], unique_count = 1\<rparr>"
proof -
  let ?g = "create_grid 2 3 2 [(1, 0), (1, 2)]"
  let ?s = "\<lparr>cr = 0, cc = 2, visited = [[True, True, True], [False, False, False]],
      path = [(0, 0), (0, 1), (0, 2)], unique_count = 3\<rparr>"
  let ?g1 = "create_grid 1 1 0 []"
  let ?s1 = "\<lparr>cr = 0, cc = 0, visited = [[True]], path = [(0, 0)], unique_count = 1\<rparr>"
  have bg: "blocked ?g = [[False, False, False], [True, False, True]]" by code_simp
  have bg1: "blocked ?g1 = [[False]]" by code_simp
  have dims: "rows ?g = 2" "cols ?g = 3" "rows ?g1 = 1" "cols ?g1 = 1"
    by (simp_all add: create_grid_def)
  have a1: "\<forall>j<4. \<not> unvisited_free ?g (visited ?s) (neighbours (cr ?s) (cc ?s) ! j)"
    by (simp add: all_less_4 neighbours_def unvisited_free_def is_free_def in_grid_def bg dims)
  have a2: "can_reposition ?g (visited ?s) (0, 1)"
    by (simp add: can_reposition_def neighbours_def unvisited_free_def is_free_def in_grid_def bg dims)
  have a3: "\<forall>j<3. \<not> can_reposition ?g (visited ?s) (neighbours (cr ?s) (cc ?s) ! j)"
    by (simp add: all_less_3 can_reposition_def neighbours_def is_free_def in_grid_def bg dims)
  have a4: "neighbours (cr ?s) (cc ?s) ! 3 = (0, 1)" by (simp add: neighbours_def)
  have b1: "\<forall>j<4. \<not> unvisited_free ?g1 (visited ?s1) (neighbours (cr ?s1) (cc ?s1) ! j)"
    by (simp add: all_less_4 neighbours_def unvisited_free_def is_free_def in_grid_def bg1 dims)
  have b2: "\<forall>j<4. \<not> can_reposition ?g1 (visited ?s1) (neighbours (cr ?s1) (cc ?s1) ! j)"
    by (simp add: all_less_4 can_reposition_def neighbours_def is_free_def in_grid_def bg1 dims)
  have k: "(3::nat) < 4" by simp
  from tier2_reposition_or_stop [OF a1, of 3 0 1 0 4, THEN conjunct1, THEN mp,
      OF conjI [OF k conjI [OF a4 conjI [OF a2 a3]]], THEN conjunct1]
  have "try_move ?g ?s = Some (?s\<lparr>cr := 0, cc := 1, path := path ?s @ [(0, 1)]\<rparr>)" .
  moreover from tier2_reposition_or_stop [OF b1, of 0 0 0 0 5, THEN conjunct2, THEN mp, OF b2]
  have "try_move ?g1 ?s1 = None \<and> step_loop ?g1 5 0 ?s1 = ?s1" .
  ultimately show ?thesis by simp
qed







text \<open>
  Claim C6. On a grid all of whose cells are blocked, \<^verbatim>\<open>solve_path\<close> reports the
  empty path and the count 0, for every \<open>movement_points\<close>, also a negative one:
  the function returns before it touches a buffer, and the result is a value,
  not a failure.
\<close>

theorem all_blocked_empty_result:
  assumes "grid_ok g" and "\<forall>r c. in_grid g r c \<longrightarrow> blocked g ! nat r ! nat c"
  shows "solve_path g movement_points = Some ([], 0)"
  using assms(2) by (intro solve_path_blocked) (auto simp: is_free_def)

theorem all_blocked_empty_result_witness:
  "grid_ok (create_grid 2 2 4 [(0, 0), (0, 1), (1, 0), (1, 1)]) \<and>
   blocked (create_grid 2 2 4 [(0, 0), (0, 1), (1, 0), (1, 1)]) = [[True, True], [True, True]] \<and>
   solve_path (create_grid 2 2 4 [(0, 0), (0, 1), (1, 0), (1, 1)]) 10 = Some ([], 0) \<and>
   solve_path (create_grid 2 2 4 [(0, 0), (0, 1), (1, 0), (1, 1)]) (- 1) = Some ([], 0)"
proof -
  let ?g = "create_grid 2 2 4 [(0, 0), (0, 1), (1, 0), (1, 1)]"
  have h1: "grid_ok ?g" by code_simp
  have b: "blocked ?g = [[True, True], [True, True]]" by code_simp
  have h2: "\<forall>r c. in_grid ?g r c \<longrightarrow> blocked ?g ! nat r ! nat c"
  proof (intro allI impI)
    fix r c assume "in_grid ?g r c"
    then have "(r = 0 \<or> r = 1) \<and> (c = 0 \<or> c = 1)"
      by (auto simp: in_grid_def create_grid_def)
    then show "blocked ?g ! nat r ! nat c" unfolding b by auto
  qed
  from all_blocked_empty_result [OF h1 h2, of 10] all_blocked_empty_result [OF h1 h2, of "- 1"] h1 b
  show ?thesis by blast
qed

text \<open>
  Claim C7. On the 3 by 3 grid whose blocked cells are \<open>(1,0)\<close>, \<open>(1,1)\<close>,
  \<open>(1,2)\<close>, with 5 movement points, the count is at most 3 and no entry of the
  path lies in row 1: the path is the top row from left to right.
\<close>

theorem middle_row_blocked_example:
  "\<exists>p u. solve_path (create_grid 3 3 3 [(1, 0), (1, 1), (1, 2)]) 5 = Some (p, u) \<and>
     u \<le> 3 \<and> 1 \<notin> fst ` set p \<and> p = [(0, 0), (0, 1), (0, 2)] \<and> u = 3"
proof -
  have "solve_path (create_grid 3 3 3 [(1, 0), (1, 1), (1, 2)]) 5 =
      Some ([(0, 0), (0, 1), (0, 2)], 3)"
    by code_simp
  then show ?thesis by simp
qed

text \<open>
  Claim C8, as amended. On a well-formed grid, for every requested count and every sequence
  of values of the random source, at every moment of the call: the number of
  cells that are blocked now and were not blocked before the call is at most the
  minimum of the requested count and \<open>rows * cols\<close> minus the number of cells
  blocked before the call, a request below zero counting as a request for no
  cell (with the requested count itself in the bound the claim fails for a
  negative request, which blocks no cell and not fewer);
  the cells blocked now are the cells blocked before together with the cells
  written; no cell is written twice, and every cell written was free before the
  call.
\<close>

theorem generate_blocked_bound:
  assumes "grid_ok g"
  shows "int (card (blocked_cells (grid_after (generate_blocked g num_blocked rs)) - blocked_cells g))
           \<le> min (max 0 num_blocked) (rows g * cols g - int (card (blocked_cells g))) \<and>
         blocked_cells (grid_after (generate_blocked g num_blocked rs)) =
           blocked_cells g \<union> set (marked (generate_blocked g num_blocked rs)) \<and>
         distinct (marked (generate_blocked g num_blocked rs)) \<and>
         list_all (\<lambda>p. is_free g (fst p) (snd p)) (marked (generate_blocked g num_blocked rs))"
proof -
  let ?res = "generate_blocked g num_blocked rs"
  from generate_blocked_sound [OF assms, of num_blocked rs]
  have d: "distinct (marked ?res)"
    and f: "list_all (\<lambda>p. is_free g (fst p) (snd p)) (marked ?res)"
    and b: "blocked_cells (grid_after ?res) = blocked_cells g \<union> set (marked ?res)"
    and l: "int (length (marked ?res))
              \<le> min (max 0 num_blocked) (rows g * cols g - int (card (blocked_cells g)))"
    by blast+
  have "set (marked ?res) \<inter> blocked_cells g = {}"
  proof (rule ccontr)
    assume "set (marked ?res) \<inter> blocked_cells g \<noteq> {}"
    then obtain p where p: "p \<in> set (marked ?res)" "p \<in> blocked_cells g" by blast
    from f p(1) have "is_free g (fst p) (snd p)" by (simp add: list_all_iff)
    with p(2) show False by (cases p) (simp add: blocked_cells_def is_free_def)
  qed
  with b have "blocked_cells (grid_after ?res) - blocked_cells g = set (marked ?res)" by blast
  then have "card (blocked_cells (grid_after ?res) - blocked_cells g) = length (marked ?res)"
    using d by (simp add: distinct_card)
  with l d f b show ?thesis by simp
qed

theorem generate_blocked_bound_witness:
  "grid_ok (create_grid 2 2 1 [(0, 0)]) \<and>
   generate_blocked (create_grid 2 2 1 [(0, 0)]) 5 [0, 0, 1, 1, 4, 5, 3, 3, 2, 2, 7, 7, 1, 0] =
     \<lparr>grid_after = \<lparr>rows = 2, cols = 2, blocked = [[True, True], [True, True]]\<rparr>,
      marked = [(1, 1), (0, 1), (1, 0)], returned = True\<rparr> \<and>
   int (card (blocked_cells \<lparr>rows = 2, cols = 2, blocked = [[True, True], [True, True]]\<rparr> -
              blocked_cells (create_grid 2 2 1 [(0, 0)])))
     \<le> min (max 0 5) (2 * 2 - int (card (blocked_cells (create_grid 2 2 1 [(0, 0)])))) \<and>
   list_all (\<lambda>p. is_free (create_grid 2 2 1 [(0, 0)]) (fst p) (snd p)) [(1, 1), (0, 1), (1, 0)]"
proof -
  let ?g = "create_grid 2 2 1 [(0, 0)]"
  let ?rs = "[0, 0, 1, 1, 4, 5, 3, 3, 2, 2, 7, 7, 1, 0] :: nat list"
  have h1: "grid_ok ?g" by code_simp
  have e: "generate_blocked ?g 5 ?rs =
     \<lparr>grid_after = \<lparr>rows = 2, cols = 2, blocked = [[True, True], [True, True]]\<rparr>,
      marked = [(1, 1), (0, 1), (1, 0)], returned = True\<rparr>" by code_simp
  have dims: "rows ?g = 2" "cols ?g = 2" by (simp_all add: create_grid_def)
  note t = generate_blocked_bound [OF h1, of 5 ?rs, unfolded e dims placement.select_convs]
  from t have c1: "int (card (blocked_cells \<lparr>rows = 2, cols = 2, blocked = [[True, True], [True, True]]\<rparr> -
              blocked_cells ?g))
     \<le> min (max 0 5) (2 * 2 - int (card (blocked_cells ?g)))"
    by (rule conjunct1)
  from t [THEN conjunct2, THEN conjunct2, THEN conjunct2]
  have c4: "list_all (\<lambda>p. is_free ?g (fst p) (snd p)) [(1, 1), (0, 1), (1, 0)]" .
  from h1 e c1 c4 show ?thesis by (intro conjI)
qed

text \<open>
  With the request \<open>-3\<close> on the 2 by 2 grid with one blocked cell the call
  returns in line 194: no cell is new, and 0 is not at most \<open>min (-3) 3\<close>.
\<close>

theorem generate_blocked_bound_counterexample:
  "grid_ok (create_grid 2 2 1 [(0, 0)]) \<and>
   generate_blocked (create_grid 2 2 1 [(0, 0)]) (- 3) [1, 1, 0, 1] =
     \<lparr>grid_after = create_grid 2 2 1 [(0, 0)], marked = [], returned = True\<rparr> \<and>
   \<not> int (card (blocked_cells
                  (grid_after (generate_blocked (create_grid 2 2 1 [(0, 0)]) (- 3) [1, 1, 0, 1])) -
                blocked_cells (create_grid 2 2 1 [(0, 0)])))
       \<le> min (- 3) (rows (create_grid 2 2 1 [(0, 0)]) * cols (create_grid 2 2 1 [(0, 0)]) -
                      int (card (blocked_cells (create_grid 2 2 1 [(0, 0)]))))"
proof -
  let ?g = "create_grid 2 2 1 [(0, 0)]"
  have h1: "grid_ok ?g" by code_simp
  have e: "generate_blocked ?g (- 3) [1, 1, 0, 1] =
      \<lparr>grid_after = ?g, marked = [], returned = True\<rparr>"
    by (simp add: generate_blocked_def)
  have "min (- 3) (rows ?g * cols ?g - int (card (blocked_cells ?g))) \<le> - 3"
    by (rule min.cobounded1)
  then have "\<not> int (card (blocked_cells (grid_after (generate_blocked ?g (- 3) [1, 1, 0, 1])) -
                blocked_cells ?g))
       \<le> min (- 3) (rows ?g * cols ?g - int (card (blocked_cells ?g)))"
    unfolding e by simp
  with h1 e show ?thesis by (intro conjI)
qed

text \<open>
  Claim C9. Every entry of a path that \<^verbatim>\<open>solve_path\<close> reports is a cell inside
  the grid that is not blocked, and two consecutive entries differ by exactly
  one in exactly one coordinate; for \<open>0 \<le> movement_points < INT_MAX\<close> a path is
  reported.
\<close>

theorem path_cells_free_and_adjacent:
  assumes "grid_ok g"
  shows "(0 \<le> movement_points \<and> movement_points < INT_MAX \<longrightarrow>
            (\<exists>p u. solve_path g movement_points = Some (p, u))) \<and>
         (\<forall>p u. solve_path g movement_points = Some (p, u) \<longrightarrow>
            list_all (\<lambda>q. in_grid g (fst q) (snd q) \<and> \<not> blocked g ! nat (fst q) ! nat (snd q)) p \<and>
            (\<forall>i. Suc i < length p \<longrightarrow> adjacent (p ! i) (p ! Suc i)))"
proof (intro conjI allI impI)
  assume mp: "0 \<le> movement_points \<and> movement_points < INT_MAX"
  then show "\<exists>p u. solve_path g movement_points = Some (p, u)"
    using solve_path_returns [of movement_points g] by blast
next
  fix p u
  assume ret: "solve_path g movement_points = Some (p, u)"
  from solve_path_cases [OF ret]
  have "(p = [] \<and> u = 0) \<or> (\<exists>s. trav_inv g s \<and> p = path s)" by blast
  then have both: "list_all (\<lambda>q. is_free g (fst q) (snd q)) p \<and> successively adjacent p"
    by (auto simp: trav_inv_def)
  then show "list_all (\<lambda>q. in_grid g (fst q) (snd q) \<and> \<not> blocked g ! nat (fst q) ! nat (snd q)) p"
    by (simp add: is_free_def)
  fix i
  assume "Suc i < length p"
  with both show "adjacent (p ! i) (p ! Suc i)" by (simp add: successively_nth)
qed

theorem path_cells_free_and_adjacent_witness:
  "grid_ok (create_grid 2 3 2 [(1, 0), (1, 2)]) \<and>
   solve_path (create_grid 2 3 2 [(1, 0), (1, 2)]) 4 =
     Some ([(0, 0), (0, 1), (0, 2), (0, 1), (1, 1)], 4) \<and>
   list_all (\<lambda>q. in_grid (create_grid 2 3 2 [(1, 0), (1, 2)]) (fst q) (snd q) \<and>
                 \<not> blocked (create_grid 2 3 2 [(1, 0), (1, 2)]) ! nat (fst q) ! nat (snd q))
     [(0, 0), (0, 1), (0, 2), (0, 1), (1, 1)] \<and>
   adjacent (0, 2) (0, 1) \<and> adjacent (0, 1) (1, 1)"
proof -
  let ?g = "create_grid 2 3 2 [(1, 0), (1, 2)]"
  let ?p = "[(0, 0), (0, 1), (0, 2), (0, 1), (1, 1)] :: (int \<times> int) list"
  have h1: "grid_ok ?g" by code_simp
  have h2: "solve_path ?g 4 = Some (?p, 4)" by code_simp
  from path_cells_free_and_adjacent [OF h1, of 4, THEN conjunct2, rule_format, OF h2]
  have a: "list_all (\<lambda>q. in_grid ?g (fst q) (snd q) \<and> \<not> blocked ?g ! nat (fst q) ! nat (snd q)) ?p"
    and b: "\<forall>i. Suc i < length ?p \<longrightarrow> adjacent (?p ! i) (?p ! Suc i)"
    by blast+
  from b [rule_format, of 2] have "adjacent (0, 2) (0, 1)" by simp
  moreover from b [rule_format, of 3] have "adjacent (0, 1) (1, 1)" by simp
  ultimately show ?thesis using h1 h2 a by simp
qed

text \<open>
  Claim C10. When the requested count is zero or negative, or when
  \<^verbatim>\<open>available\<close> is not positive, which is the case on a well-formed grid
  without a free cell, \<^verbatim>\<open>generate_blocked\<close> returns the grid it was given, with
  no cell written, whatever the random source holds.
\<close>

theorem generate_blocked_noop:
  assumes "num_blocked \<le> 0 \<or> rows g * cols g - count_rows g 0 0 \<le> 0 \<or>
           (grid_ok g \<and> (\<forall>r c. in_grid g r c \<longrightarrow> blocked g ! nat r ! nat c))"
  shows "generate_blocked g num_blocked rs = \<lparr>grid_after = g, marked = [], returned = True\<rparr>"
proof -
  have "grid_ok g \<and> (\<forall>r c. in_grid g r c \<longrightarrow> blocked g ! nat r ! nat c) \<Longrightarrow>
        rows g * cols g - count_rows g 0 0 \<le> 0"
    using card_all_blocked [of g] by (simp add: count_rows_blocked_cells)
  with assms have "num_blocked \<le> 0 \<or> rows g * cols g - count_rows g 0 0 \<le> 0" by blast
  then show ?thesis by (auto simp: generate_blocked_def Let_def)
qed

theorem generate_blocked_noop_witness:
  "generate_blocked (create_grid 2 2 1 [(0, 0)]) 0 [3, 1, 2, 2] =
     \<lparr>grid_after = create_grid 2 2 1 [(0, 0)], marked = [], returned = True\<rparr> \<and>
   generate_blocked (create_grid 2 2 1 [(0, 0)]) (- 3) [3, 1, 2, 2] =
     \<lparr>grid_after = create_grid 2 2 1 [(0, 0)], marked = [], returned = True\<rparr> \<and>
   blocked (create_grid 2 2 4 [(0, 0), (0, 1), (1, 0), (1, 1)]) = [[True, True], [True, True]] \<and>
   generate_blocked (create_grid 2 2 4 [(0, 0), (0, 1), (1, 0), (1, 1)]) 3 [3, 1, 2, 2] =
     \<lparr>grid_after = create_grid 2 2 4 [(0, 0), (0, 1), (1, 0), (1, 1)], marked = [],
      returned = True\<rparr>"
proof -
  let ?g = "create_grid 2 2 1 [(0, 0)]"
  let ?f = "create_grid 2 2 4 [(0, 0), (0, 1), (1, 0), (1, 1)]"
  have a: "(0::int) \<le> 0" "(- 3::int) \<le> 0" by simp_all
  have h1: "grid_ok ?f" by code_simp
  have b: "blocked ?f = [[True, True], [True, True]]" by code_simp
  have h2: "\<forall>r c. in_grid ?f r c \<longrightarrow> blocked ?f ! nat r ! nat c"
  proof (intro allI impI)
    fix r c assume "in_grid ?f r c"
    then have "(r = 0 \<or> r = 1) \<and> (c = 0 \<or> c = 1)"
      by (auto simp: in_grid_def create_grid_def)
    then show "blocked ?f ! nat r ! nat c" unfolding b by auto
  qed
  from generate_blocked_noop [of 0 ?g "[3, 1, 2, 2]", OF disjI1 [OF a(1)]]
    generate_blocked_noop [of "- 3" ?g "[3, 1, 2, 2]", OF disjI1 [OF a(2)]]
    generate_blocked_noop [of 3 ?f "[3, 1, 2, 2]", OF disjI2 [OF disjI2 [OF conjI [OF h1 h2]]]]
    b
  show ?thesis by blast
qed

end
